theory Spec2Isabelle
  imports Main "HOL-Library.Multiset"
begin

section \<open>Data model (package types)\<close>

text \<open>
  A \<open>time.Time\<close> is modelled by the instant it denotes: an integer count of nanoseconds,
  as the tests build them with \<open>time.Unix(0, n)\<close>. \<open>t.After(u)\<close> is the strict order of
  instants.
\<close>

type_synonym time = int

definition After :: "time \<Rightarrow> time \<Rightarrow> bool" where
  "After t u \<longleftrightarrow> u < t"

record Enclosure =
  URL :: string
  Type :: string

record Article =
  FeedID :: string
  ID :: string
  GUID :: string
  Title :: string
  Link :: string
  Comments :: string
  PublishDate :: time
  Categories :: "string list"
  Enclosures :: "Enclosure list"
  Description :: string
  Author :: string
  Content :: string
  FullText :: string


section \<open>Pointers, errors and identifiers\<close>

text \<open>
  The stores keep \<open>*types.Article\<close> and \<open>*types.Feed\<close> pointers and \<open>Create\<close> writes the
  \<open>ID\<close> field through the pointer it is given, so the objects live in an explicit heap:
  a \<open>ref\<close> is an address, and a nil pointer is \<open>None :: ref option\<close>.
\<close>

type_synonym ref = nat

text \<open>\<open>errors.New(msg)\<close>: an error is its message.\<close>

datatype error = Error string

definition CursorNotFound :: error where
  "CursorNotFound = Error ''could not find provided cursor''"

definition InvalidArgument :: error where
  "InvalidArgument = Error ''invalid ID provided''"

definition NotFound :: error where
  "NotFound = Error ''resource not found''"

text \<open>The package constant \<open>uuidNamespace\<close> of store.go.\<close>

definition store_uuidNamespace :: string where
  "store_uuidNamespace = ''cabe9f84-ab7e-494c-bf53-7499adeb30ac''"

text \<open>
  \<open>uuid.NewSHA1(ns, []byte(key)).String()\<close> belongs to the library github.com/google/uuid,
  which is not part of the repository. Every operation below takes it as the parameter
  \<open>sha :: string \<Rightarrow> string \<Rightarrow> string\<close> (namespace, key, identifier), and the theorems hold
  for every such function. \<open>sampleSHA1\<close> is a stand-in used only where the model is run on
  concrete inputs.
\<close>

type_synonym idgen = "string \<Rightarrow> string \<Rightarrow> string"

definition sampleSHA1 :: idgen where
  "sampleSHA1 ns key = ns @ CHR ''/'' # key"

section \<open>ArticleStore (store/article.go)\<close>

text \<open>
  The struct fields \<open>a\<close>, \<open>m\<close> and \<open>uuidNamespace\<close>, together with the heap of the articles
  the pointers refer to. The lock \<open>mu\<close> is not modelled: operations run one after another.
\<close>

record state =
  heap :: "ref \<Rightarrow> Article"
  a :: "ref list"
  m :: "string \<rightharpoonup> ref"
  uuidNamespace :: string

definition NewArticleStore :: "(ref \<Rightarrow> Article) \<Rightarrow> state" where
  "NewArticleStore h =
     \<lparr>heap = h, a = [], m = Map.empty, uuidNamespace = store_uuidNamespace\<rparr>"

definition Reset :: "state \<Rightarrow> state" where
  "Reset st = st\<lparr>a := [], m := Map.empty\<rparr>"

text \<open>
  The backward scan of \<open>Create\<close>:
  \<^verbatim>\<open>for i := len(as.a) - 2; i >= 0; i-- {
    if article.PublishDate.After(as.a[i].PublishDate) || i == 0 {
      as.a = append(as.a[:i+1], as.a[i:]...)
      as.a[i+1] = article
      as.m[generatedID] = article
      break } }\<close>
  \<open>append(as.a[:i+1], as.a[i:]...)\<close> has the elements \<open>take (i+1) a @ drop i a\<close>, whether
  it copies in place or into a new array.
\<close>

function Create_loop :: "ref \<Rightarrow> string \<Rightarrow> state \<Rightarrow> int \<Rightarrow> state" where
  "Create_loop article generatedID st i =
     (if 0 \<le> i then
        (if After (PublishDate (heap st article)) (PublishDate (heap st (a st ! nat i))) \<or> i = 0
         then st\<lparr>a := (take (nat i + 1) (a st) @ drop (nat i) (a st))[nat i + 1 := article],
                 m := (m st)(generatedID \<mapsto> article)\<rparr>
         else Create_loop article generatedID st (i - 1))
      else st)"
  by pat_completeness auto
termination
  by (relation "measure (\<lambda>(article, generatedID, st, i). nat (i + 1))") auto

declare Create_loop.simps [simp del]

definition Create :: "idgen \<Rightarrow> state \<Rightarrow> ref option \<Rightarrow> (error + ref option) \<times> state" where
  "Create sha st article =
     (case article of
        None \<Rightarrow> (Inr None, st)
      | Some p \<Rightarrow>
          let generatedID = sha (uuidNamespace st) (GUID (heap st p)) in
          (case m st generatedID of
             Some q \<Rightarrow> (Inr (Some q), st)
           | None \<Rightarrow>
               let st1 = st\<lparr>heap := (heap st)(p := (heap st p)\<lparr>ID := generatedID\<rparr>)\<rparr> in
               if length (a st1) = 0 \<or>
                  \<not> After (PublishDate (heap st1 (a st1 ! (length (a st1) - 1))))
                          (PublishDate (heap st1 p))
               then (Inr (Some p), st1\<lparr>a := a st1 @ [p], m := (m st1)(generatedID \<mapsto> p)\<rparr>)
               else if \<not> After (PublishDate (heap st1 p)) (PublishDate (heap st1 (a st1 ! 0)))
               then (Inr (Some p), st1\<lparr>a := p # a st1, m := (m st1)(generatedID \<mapsto> p)\<rparr>)
               else (Inr (Some p), Create_loop p generatedID st1 (int (length (a st1)) - 2))))"

text \<open>\<open>findArticleCursorIndex\<close>: the \<open>range\<close> loop carries the index \<open>i\<close>.\<close>

fun findArticleCursorIndex_loop :: "(ref \<Rightarrow> Article) \<Rightarrow> string \<Rightarrow> nat \<Rightarrow> ref list \<Rightarrow> nat \<times> bool" where
  "findArticleCursorIndex_loop h cursor i [] = (0, False)"
| "findArticleCursorIndex_loop h cursor i (p # ps) =
     (if ID (h p) = cursor then (i + 1, True)
      else findArticleCursorIndex_loop h cursor (i + 1) ps)"

definition findArticleCursorIndex :: "state \<Rightarrow> string \<Rightarrow> nat \<times> bool" where
  "findArticleCursorIndex st cursor =
     (if cursor = [] then (0, True)
      else findArticleCursorIndex_loop (heap st) cursor 0 (a st))"

text \<open>The inner loop of \<open>List\<close> that looks for one of the article's categories in the filter.\<close>

fun hasCategory :: "string set \<Rightarrow> string list \<Rightarrow> bool" where
  "hasCategory cat [] = False"
| "hasCategory cat (c # cs) = (if c \<in> cat then True else hasCategory cat cs)"

text \<open>
  The main loop of \<open>List\<close>, from index \<open>i\<close>, with the counter \<open>found\<close> and the result so far.
  \<open>pageSize\<close> is a Go \<open>int\<close> and may be zero or negative; \<open>found\<close> is compared with it after
  each increment.
\<close>

function List_loop ::
  "state \<Rightarrow> string set \<Rightarrow> string \<Rightarrow> int \<Rightarrow> nat \<Rightarrow> int \<Rightarrow> ref list \<Rightarrow> ref list" where
  "List_loop st cat feed pageSize i found res =
     (if i < length (a st) then
        (let current = a st ! i in
         if cat \<noteq> {} \<and> (length (Categories (heap st current)) = 0
                        \<or> \<not> hasCategory cat (Categories (heap st current)))
         then List_loop st cat feed pageSize (i + 1) found res
         else if feed \<noteq> [] \<and> FeedID (heap st current) \<noteq> feed
         then List_loop st cat feed pageSize (i + 1) found res
         else if found + 1 = pageSize then res @ [current]
         else List_loop st cat feed pageSize (i + 1) (found + 1) (res @ [current]))
      else res)"
  by pat_completeness auto
termination
  by (relation "measure (\<lambda>(st, cat, feed, pageSize, i, found, res). length (a st) - i)") auto

declare List_loop.simps [simp del]

definition List :: "state \<Rightarrow> string \<Rightarrow> int \<Rightarrow> string \<Rightarrow> string list \<Rightarrow> error + ref list" where
  "List st cursor pageSize feed categories =
     (let cat = set categories;
          (firstReturnIndex, ok) = findArticleCursorIndex st cursor
      in if \<not> ok then Inl CursorNotFound
         else Inr (List_loop st cat feed pageSize firstReturnIndex 0 []))"

definition Get :: "state \<Rightarrow> string \<Rightarrow> error + ref" where
  "Get st ident =
     (if ident = [] then Inl InvalidArgument
      else (case m st ident of None \<Rightarrow> Inl NotFound | Some p \<Rightarrow> Inr p))"

section \<open>FeedStore (store/feed.go)\<close>




section \<open>Running the store\<close>

text \<open>A sequence of \<open>Create\<close> calls with non-nil articles, one after another.\<close>

fun Creates :: "idgen \<Rightarrow> state \<Rightarrow> ref list \<Rightarrow> state" where
  "Creates sha st [] = st"
| "Creates sha st (p # ps) = Creates sha (snd (Create sha st (Some p))) ps"

text \<open>The states a store goes through: fresh, then any \<open>Create\<close> and \<open>Reset\<close> calls.\<close>

inductive reachable :: "idgen \<Rightarrow> state \<Rightarrow> bool" for sha :: idgen where
  fresh: "reachable sha (NewArticleStore h)"
| create: "reachable sha st \<Longrightarrow> reachable sha (snd (Create sha st article))"
| reset: "reachable sha st \<Longrightarrow> reachable sha (Reset st)"

text \<open>
  An article as the tests build it, \<open>&types.Article{GUID: g, PublishDate: time.Unix(0, t)}\<close>,
  with optional feed and categories; every other field has its zero value.
\<close>

definition mkArticle :: "string \<Rightarrow> time \<Rightarrow> string \<Rightarrow> string list \<Rightarrow> Article" where
  "mkArticle g t f cs =
     \<lparr>FeedID = f, ID = [], GUID = g, Title = [], Link = [], Comments = [],
      PublishDate = t, Categories = cs, Enclosures = [], Description = [], Author = [],
      Content = [], FullText = []\<rparr>"

section \<open>Auxiliary notions for the statements\<close>

text \<open>The publish timestamp of the article behind a pointer, and the store's timeline.\<close>

definition date :: "state \<Rightarrow> ref \<Rightarrow> time" where
  "date st p = PublishDate (heap st p)"

definition dates :: "state \<Rightarrow> time list" where
  "dates st = map (date st) (a st)"

text \<open>
  The two effects of an insertion, named for the statements below. First the write
  \<open>article.ID = generatedID\<close> through the pointer:
\<close>

definition stampID :: "state \<Rightarrow> ref \<Rightarrow> string \<Rightarrow> state" where
  "stampID st p gid = st\<lparr>heap := (heap st)(p := (heap st p)\<lparr>ID := gid\<rparr>)\<rparr>"

text \<open>then the pointer entering the sequence at position \<open>k\<close> and the index under its identifier:\<close>

definition insertAt :: "state \<Rightarrow> ref \<Rightarrow> string \<Rightarrow> nat \<Rightarrow> state" where
  "insertAt st p gid k = st\<lparr>a := take k (a st) @ p # drop k (a st), m := (m st)(gid \<mapsto> p)\<rparr>"

text \<open>
  Where the three branches of \<open>Create\<close> put an article of timestamp \<open>t\<close>: at the end, at the
  start, or after the last article that is strictly earlier.
\<close>

definition placed :: "state \<Rightarrow> time \<Rightarrow> nat \<Rightarrow> bool" where
  "placed st t k \<longleftrightarrow>
     (let n = length (a st) in
      (k = n \<and> (n = 0 \<or> date st (a st ! (n - 1)) \<le> t)) \<or>
      (k = 0 \<and> 0 < n \<and> t < date st (a st ! (n - 1)) \<and> t \<le> date st (a st ! 0)) \<or>
      (0 < k \<and> k < n \<and> t < date st (a st ! (n - 1)) \<and> date st (a st ! (k - 1)) < t \<and>
         (\<forall>j. k \<le> j \<and> j < n \<longrightarrow> t \<le> date st (a st ! j))))"

text \<open>
  The filter of \<open>List\<close> in the words of the specification: with category filters, the
  article's categories intersect the filter set; with a feed filter, the article's feed
  identifier equals it.
\<close>

definition matches :: "state \<Rightarrow> string list \<Rightarrow> string \<Rightarrow> ref \<Rightarrow> bool" where
  "matches st categories feed p \<longleftrightarrow>
     (categories = [] \<or> set (Categories (heap st p)) \<inter> set categories \<noteq> {}) \<and>
     (feed = [] \<or> FeedID (heap st p) = feed)"

text \<open>A page: the first \<open>pageSize\<close> elements, or all of them when \<open>pageSize\<close> is not positive.\<close>

definition page :: "int \<Rightarrow> 'a list \<Rightarrow> 'a list" where
  "page pageSize xs = (if 0 < pageSize then take (nat pageSize) xs else xs)"

text \<open>
  The sequence and the index describe the same articles: no pointer occurs twice in the
  sequence, every article of the sequence carries the identifier derived from its GUID and
  is indexed under it, and every index entry points into the sequence, under the
  identifier the article carries.
\<close>

definition store_inv :: "idgen \<Rightarrow> state \<Rightarrow> bool" where
  "store_inv sha st \<longleftrightarrow>
     distinct (a st) \<and>
     (\<forall>p \<in> set (a st). ID (heap st p) = sha (uuidNamespace st) (GUID (heap st p)) \<and>
                         m st (ID (heap st p)) = Some p) \<and>
     (\<forall>k p. m st k = Some p \<longrightarrow> p \<in> set (a st) \<and> ID (heap st p) = k)"

text \<open>
  The reader's side of the pagination contract, in the words of the specification: call
  \<open>List\<close> without filters, stop at an empty page (or an error), otherwise call again with
  the identifier of the last article of the page. The first argument bounds the number of
  \<open>List\<close> calls; \<open>None\<close> means the bound was reached before an empty page.
\<close>

fun paginate :: "nat \<Rightarrow> state \<Rightarrow> int \<Rightarrow> string \<Rightarrow> (error + ref list) option" where
  "paginate 0 st pageSize cursor = None"
| "paginate (Suc fuel) st pageSize cursor =
     (case List st cursor pageSize [] [] of
        Inl e \<Rightarrow> Some (Inl e)
      | Inr res \<Rightarrow>
          if res = [] then Some (Inr [])
          else (case paginate fuel st pageSize (ID (heap st (last res))) of
                  None \<Rightarrow> None
                | Some (Inl e) \<Rightarrow> Some (Inl e)
                | Some (Inr rest) \<Rightarrow> Some (Inr (res @ rest))))"

text \<open>
  The heap of the test "three articles appended in the correct order": GUIDs first, third,
  second with timestamps 1, 3, 2, at the addresses 0, 1, 2.
\<close>

definition testHeap :: "ref \<Rightarrow> Article" where
  "testHeap r =
     (if r = 0 then mkArticle ''first'' 1 [] []
      else if r = 1 then mkArticle ''third'' 3 [] []
      else mkArticle ''second'' 2 [] [])"

text \<open>
  The heap of the test of \<open>List\<close>: five articles first .. fifth with timestamps 1 .. 5, two
  feeds, and categories as in the test, at the addresses 0 .. 4.
\<close>

definition listHeap :: "ref \<Rightarrow> Article" where
  "listHeap r =
     (if r = 0 then mkArticle ''first'' 1 ''feed_id'' [''cat_1'', ''cat_4'']
      else if r = 1 then mkArticle ''second'' 2 ''feed_id'' [''cat_1'', ''cat_3'']
      else if r = 2 then mkArticle ''third'' 3 ''feed_id2'' [''cat_1'']
      else if r = 3 then mkArticle ''fourth'' 4 ''feed_id'' []
      else mkArticle ''fifth'' 5 ''feed_id2'' [''cat_3''])"

text \<open>
  Four articles with timestamps 1, 2, 3 and again 2, at the addresses 0 .. 3: the last one
  ties with the second.
\<close>

definition tieHeap :: "ref \<Rightarrow> Article" where
  "tieHeap r =
     (if r = 0 then mkArticle ''first'' 1 [] []
      else if r = 1 then mkArticle ''second'' 2 [] []
      else if r = 2 then mkArticle ''third'' 3 [] []
      else mkArticle ''tie'' 2 [] [])"

text \<open>
  The inputs of the two tests "generate the correct UUID ID": an article whose GUID is
  test_guid and a feed whose address is test_guid.
\<close>

definition guidHeap :: "ref \<Rightarrow> Article" where
  "guidHeap r = mkArticle ''test_guid'' 0 [] []"


text \<open>
  The heap of the test "five articles appended in the correct order": GUIDs first, third,
  fourth, fifth, second with timestamps 1, 3, 4, 5, 2, at the addresses 0 .. 4.
\<close>

definition fiveHeap :: "ref \<Rightarrow> Article" where
  "fiveHeap r =
     (if r = 0 then mkArticle ''first'' 1 [] []
      else if r = 1 then mkArticle ''third'' 3 [] []
      else if r = 2 then mkArticle ''fourth'' 4 [] []
      else if r = 3 then mkArticle ''fifth'' 5 [] []
      else mkArticle ''second'' 2 [] [])"

section \<open>The repository's tests, replayed on the model\<close>

text \<open>
  With the stand-in generator an identifier is the namespace, a slash and the key, so the
  cursors below are the identifiers of the articles second, fourth and fifth.
\<close>

lemma test_Create_five_articles:
  "map (\<lambda>p. GUID (heap (Creates sampleSHA1 (NewArticleStore fiveHeap) [0, 1, 2, 3, 4]) p))
     (a (Creates sampleSHA1 (NewArticleStore fiveHeap) [0, 1, 2, 3, 4])) =
   [''first'', ''second'', ''third'', ''fourth'', ''fifth'']"
  by code_simp

lemma test_Create_nil:
  "Create sampleSHA1 (NewArticleStore testHeap) None = (Inr None, NewArticleStore testHeap)"
  by (simp add: Create_def)

lemma test_List_pages:
  "List (Creates sampleSHA1 (NewArticleStore listHeap) [0, 1, 2, 3, 4]) [] 2 [] [] = Inr [0, 1]"
  "List (Creates sampleSHA1 (NewArticleStore listHeap) [0, 1, 2, 3, 4])
     (sampleSHA1 store_uuidNamespace ''second'') 2 [] [] = Inr [2, 3]"
  "List (Creates sampleSHA1 (NewArticleStore listHeap) [0, 1, 2, 3, 4])
     (sampleSHA1 store_uuidNamespace ''fourth'') 2 [] [] = Inr [4]"
  "List (Creates sampleSHA1 (NewArticleStore listHeap) [0, 1, 2, 3, 4])
     (sampleSHA1 store_uuidNamespace ''fifth'') 2 [] [] = Inr []"
  "List (Creates sampleSHA1 (NewArticleStore listHeap) [0, 1, 2, 3, 4])
     ''invalid_cursor'' 2 [] [] = Inl CursorNotFound"
  by code_simp+

lemma test_List_filters:
  "List (Creates sampleSHA1 (NewArticleStore listHeap) [0, 1, 2, 3, 4]) [] 6 ''feed_id'' []
     = Inr [0, 1, 3]"
  "List (Creates sampleSHA1 (NewArticleStore listHeap) [0, 1, 2, 3, 4]) [] 6 [] [''cat_1'']
     = Inr [0, 1, 2]"
  "List (Creates sampleSHA1 (NewArticleStore listHeap) [0, 1, 2, 3, 4]) [] 6 [] [''cat_1'', ''cat_3'']
     = Inr [0, 1, 2, 4]"
  "List (Creates sampleSHA1 (NewArticleStore listHeap) [0, 1, 2, 3, 4]) [] 6 [] [''cat_invalid'']
     = Inr []"
  by code_simp+

section \<open>Get and Reset\<close>

lemma error_kinds_distinct:
  "InvalidArgument \<noteq> NotFound" "InvalidArgument \<noteq> CursorNotFound" "NotFound \<noteq> CursorNotFound"
  by (simp_all add: InvalidArgument_def NotFound_def CursorNotFound_def)

text \<open>
  C8. \<open>Get\<close> fails with the invalid-argument error on the empty identifier, with the
  not-found error on a non-empty identifier absent from the index, and otherwise returns
  the indexed article; an identifier that \<open>Get\<close> resolved is not found after \<open>Reset\<close>.
\<close>

theorem Get_contract:
  "(ident = [] \<longrightarrow> Get st ident = Inl InvalidArgument) \<and>
   (ident \<noteq> [] \<and> m st ident = None \<longrightarrow> Get st ident = Inl NotFound) \<and>
   (\<forall>p. ident \<noteq> [] \<and> m st ident = Some p \<longrightarrow> Get st ident = Inr p) \<and>
   (\<forall>p. Get st ident = Inr p \<longrightarrow> Get (Reset st) ident = Inl NotFound)"
  by (auto simp: Get_def Reset_def split: if_splits option.splits)

theorem Get_contract_witness:
  "Get (Creates sampleSHA1 (NewArticleStore testHeap) [0]) [] = Inl InvalidArgument \<and>
   Get (Creates sampleSHA1 (NewArticleStore testHeap) [0]) ''unknown'' = Inl NotFound \<and>
   Get (Creates sampleSHA1 (NewArticleStore testHeap) [0])
     ''cabe9f84-ab7e-494c-bf53-7499adeb30ac/first'' = Inr 0 \<and>
   Get (Reset (Creates sampleSHA1 (NewArticleStore testHeap) [0]))
     ''cabe9f84-ab7e-494c-bf53-7499adeb30ac/first'' = Inl NotFound"
proof -
  let ?st = "Creates sampleSHA1 (NewArticleStore testHeap) [0]"
  have e: "m ?st ''unknown'' = None"
    "m ?st ''cabe9f84-ab7e-494c-bf53-7499adeb30ac/first'' = Some 0"
    by (simp_all add: Create_def NewArticleStore_def testHeap_def mkArticle_def sampleSHA1_def
        store_uuidNamespace_def Let_def)
  show ?thesis
    using Get_contract [of "[]" ?st] Get_contract [of "''unknown''" ?st]
      Get_contract [of "''cabe9f84-ab7e-494c-bf53-7499adeb30ac/first''" ?st] e
    by simp
qed

section \<open>Cursor resolution\<close>

lemma findArticleCursorIndex_loop_ok:
  "snd (findArticleCursorIndex_loop h cursor i ps) \<longleftrightarrow> (\<exists>p \<in> set ps. ID (h p) = cursor)"
  by (induction ps arbitrary: i) auto

text \<open>
  C7. A non-empty cursor that is the identifier of no article of the sequence makes \<open>List\<close>
  fail with the cursor-not-found error (the result carries no articles); a cursor that is
  the identifier of an article of the sequence makes \<open>List\<close> succeed, whatever it returns.
\<close>

theorem List_cursor_contract:
  "(cursor \<noteq> [] \<and> (\<forall>p \<in> set (a st). ID (heap st p) \<noteq> cursor)
      \<longrightarrow> List st cursor pageSize feed categories = Inl CursorNotFound) \<and>
   ((\<exists>p \<in> set (a st). ID (heap st p) = cursor)
      \<longrightarrow> (\<exists>res. List st cursor pageSize feed categories = Inr res))"
proof -
  obtain i ok where f: "findArticleCursorIndex st cursor = (i, ok)"
    by (cases "findArticleCursorIndex st cursor")
  have ok: "ok \<longleftrightarrow> cursor = [] \<or> (\<exists>p \<in> set (a st). ID (heap st p) = cursor)"
    using f findArticleCursorIndex_loop_ok [of "heap st" cursor 0 "a st"]
    by (auto simp: findArticleCursorIndex_def split: if_splits)
  show ?thesis
    using f ok by (auto simp: List_def)
qed

theorem List_cursor_contract_witness:
  "List (Creates sampleSHA1 (NewArticleStore testHeap) [0, 1, 2]) ''stale'' 10 [] [] = Inl CursorNotFound \<and>
   (\<exists>res. List (Creates sampleSHA1 (NewArticleStore testHeap) [0, 1, 2])
            ''cabe9f84-ab7e-494c-bf53-7499adeb30ac/third'' 10 [] [] = Inr res)"
proof -
  let ?st = "Creates sampleSHA1 (NewArticleStore testHeap) [0, 1, 2]"
  have e: "a ?st = [0, 2, 1]"
    "map (\<lambda>p. ID (heap ?st p)) [0, 2, 1] =
       [''cabe9f84-ab7e-494c-bf53-7499adeb30ac/first'',
        ''cabe9f84-ab7e-494c-bf53-7499adeb30ac/second'',
        ''cabe9f84-ab7e-494c-bf53-7499adeb30ac/third'']"
    by code_simp+
  show ?thesis
    using List_cursor_contract [of "''stale''" ?st 10 "[]" "[]"]
      List_cursor_contract [of "''cabe9f84-ab7e-494c-bf53-7499adeb30ac/third''" ?st 10 "[]" "[]"] e
    by simp
qed

section \<open>What Create does\<close>

lemma insert_idiom:
  "k < length xs \<Longrightarrow> (take (k + 1) xs @ drop k xs)[k + 1 := p] = take (Suc k) xs @ p # drop (Suc k) xs"
proof -
  assume k: "k < length xs"
  then have d: "drop k xs = xs ! k # drop (Suc k) xs"
    by (simp add: Cons_nth_drop_Suc)
  have l: "length (take (k + 1) xs) = k + 1" using k by simp
  show ?thesis
    unfolding d using l by (simp add: list_update_append)
qed

lemma Create_loop_spec:
  assumes "0 \<le> i" "nat i + 1 < length (a st)"
  shows "\<exists>k\<le>nat i.
           Create_loop p gid st i =
             insertAt st p gid (Suc k) \<and>
           (k = 0 \<or> PublishDate (heap st (a st ! k)) < PublishDate (heap st p)) \<and>
           (\<forall>j. k < j \<and> j \<le> nat i \<longrightarrow> PublishDate (heap st p) \<le> PublishDate (heap st (a st ! j)))"
  using assms
proof (induction p gid st i rule: Create_loop.induct)
  case (1 p gid st i)
  show ?case
  proof (cases "After (PublishDate (heap st p)) (PublishDate (heap st (a st ! nat i))) \<or> i = 0")
    case True
    have "Create_loop p gid st i =
            insertAt st p gid (Suc (nat i))"
      using True "1.prems" insert_idiom [of "nat i" "a st" p]
      by (subst Create_loop.simps) (auto simp: insertAt_def)
    moreover have "nat i = 0 \<or> PublishDate (heap st (a st ! nat i)) < PublishDate (heap st p)"
      using True by (auto simp: After_def)
    ultimately show ?thesis by (intro exI [of _ "nat i"]) simp
  next
    case False
    then have pos: "0 \<le> i - 1" and lt: "nat (i - 1) + 1 < length (a st)"
      using "1.prems" by auto
    from "1.IH" [OF "1.prems"(1) False pos lt]
    obtain k where k: "k \<le> nat (i - 1)"
      "Create_loop p gid st (i - 1) =
         insertAt st p gid (Suc k)"
      "k = 0 \<or> PublishDate (heap st (a st ! k)) < PublishDate (heap st p)"
      "\<forall>j. k < j \<and> j \<le> nat (i - 1) \<longrightarrow> PublishDate (heap st p) \<le> PublishDate (heap st (a st ! j))"
      by blast
    have step: "Create_loop p gid st i = Create_loop p gid st (i - 1)"
      using False "1.prems" by (subst Create_loop.simps) auto
    have top: "PublishDate (heap st p) \<le> PublishDate (heap st (a st ! nat i))"
      using False by (auto simp: After_def)
    have "\<forall>j. k < j \<and> j \<le> nat i \<longrightarrow> PublishDate (heap st p) \<le> PublishDate (heap st (a st ! j))"
    proof (intro allI impI)
      fix j assume j: "k < j \<and> j \<le> nat i"
      show "PublishDate (heap st p) \<le> PublishDate (heap st (a st ! j))"
      proof (cases "j = nat i")
        case True then show ?thesis using top by simp
      next
        case False
        then have "j \<le> nat (i - 1)" using j pos by auto
        then show ?thesis using k(4) j by blast
      qed
    qed
    moreover have "k \<le> nat i" using k(1) by auto
    ultimately show ?thesis using k(2,3) step by (intro exI [of _ k]) simp
  qed
qed

lemma stampID_fields [simp]:
  "a (stampID st p gid) = a st" "m (stampID st p gid) = m st"
  "uuidNamespace (stampID st p gid) = uuidNamespace st"
  "heap (stampID st p gid) = (heap st)(p := (heap st p)\<lparr>ID := gid\<rparr>)"
  "date (stampID st p gid) q = date st q"
  by (simp_all add: stampID_def date_def)

lemma insertAt_fields [simp]:
  "a (insertAt st p gid k) = take k (a st) @ p # drop k (a st)"
  "m (insertAt st p gid k) = (m st)(gid \<mapsto> p)"
  "uuidNamespace (insertAt st p gid k) = uuidNamespace st"
  "heap (insertAt st p gid k) = heap st"
  "date (insertAt st p gid k) q = date st q"
  by (simp_all add: insertAt_def date_def)

lemma Create_nil: "Create sha st None = (Inr None, st)"
  by (simp add: Create_def)

lemma Create_present:
  "m st (sha (uuidNamespace st) (GUID (heap st p))) = Some q \<Longrightarrow>
   Create sha st (Some p) = (Inr (Some q), st)"
  by (simp add: Create_def)

lemma Create_fresh:
  assumes fresh: "m st (sha (uuidNamespace st) (GUID (heap st p))) = None"
  shows "\<exists>k\<le>length (a st).
           Create sha st (Some p) =
             (Inr (Some p),
              insertAt (stampID st p (sha (uuidNamespace st) (GUID (heap st p)))) p
                (sha (uuidNamespace st) (GUID (heap st p))) k) \<and>
           placed st (date st p) k"
proof -
  define gid where "gid = sha (uuidNamespace st) (GUID (heap st p))"
  define st1 where "st1 = stampID st p gid"
  define n where "n = length (a st)"
  have d: "PublishDate (heap st1 q) = date st q" for q
    by (simp add: st1_def date_def)
  have a1: "a st1 = a st" by (simp add: st1_def)
  consider (A) "n = 0 \<or> date st (a st ! (n - 1)) \<le> date st p"
    | (B) "0 < n" "date st p < date st (a st ! (n - 1))" "date st p \<le> date st (a st ! 0)"
    | (C) "0 < n" "date st p < date st (a st ! (n - 1))" "date st (a st ! 0) < date st p"
    by linarith
  then show ?thesis
  proof cases
    case A
    have "Create sha st (Some p) = (Inr (Some p), insertAt st1 p gid n)"
      using A fresh
      by (auto simp: Create_def Let_def gid_def [symmetric] stampID_def [symmetric] st1_def [symmetric]
          d a1 n_def After_def insertAt_def)
    moreover have "placed st (date st p) n"
      using A by (auto simp: placed_def n_def)
    ultimately show ?thesis
      unfolding gid_def [symmetric] st1_def [symmetric] n_def by (intro exI [of _ "length (a st)"]) simp
  next
    case B
    have "Create sha st (Some p) = (Inr (Some p), insertAt st1 p gid 0)"
      using B fresh
      by (auto simp: Create_def Let_def gid_def [symmetric] stampID_def [symmetric] st1_def [symmetric]
          d a1 n_def After_def insertAt_def)
    moreover have "placed st (date st p) 0"
      using B by (auto simp: placed_def n_def)
    ultimately show ?thesis
      unfolding gid_def [symmetric] st1_def [symmetric] by (intro exI [of _ 0]) simp
  next
    case C
    have n2: "2 \<le> n"
    proof (rule ccontr)
      assume "\<not> 2 \<le> n"
      then have "n = 1" using C(1) by simp
      then show False using C(2,3) by simp
    qed
    have i0: "0 \<le> int (length (a st1)) - 2" and i1: "nat (int (length (a st1)) - 2) + 1 < length (a st1)"
      using n2 by (simp_all add: a1 n_def)
    from Create_loop_spec [OF i0 i1, of p gid]
    obtain k where k: "k \<le> nat (int (length (a st1)) - 2)"
      "Create_loop p gid st1 (int (length (a st1)) - 2) = insertAt st1 p gid (Suc k)"
      "k = 0 \<or> PublishDate (heap st1 (a st1 ! k)) < PublishDate (heap st1 p)"
      "\<forall>j. k < j \<and> j \<le> nat (int (length (a st1)) - 2) \<longrightarrow>
           PublishDate (heap st1 p) \<le> PublishDate (heap st1 (a st1 ! j))"
      by blast
    have kn: "Suc k < n" using k(1) n2 by (simp add: a1 n_def)
    have "Create sha st (Some p) = (Inr (Some p), insertAt st1 p gid (Suc k))"
      using C fresh k(2)
      by (auto simp: Create_def Let_def gid_def [symmetric] stampID_def [symmetric] st1_def [symmetric]
          d a1 n_def After_def)
    moreover have "placed st (date st p) (Suc k)"
    proof -
      have below: "date st (a st ! k) < date st p"
        using k(3) C(3) by (auto simp: d a1)
      have above: "t \<le> date st (a st ! j)" if "Suc k \<le> j" "j < n" "t = date st p" for j t
      proof (cases "j = n - 1")
        case True then show ?thesis using C(2) that by simp
      next
        case False
        then have "j \<le> nat (int (length (a st1)) - 2)" using that by (simp add: a1 n_def)
        then show ?thesis using k(4) that by (simp add: d a1)
      qed
      show ?thesis using below above kn C(2) by (simp add: placed_def n_def)
    qed
    ultimately show ?thesis
      unfolding gid_def [symmetric] st1_def [symmetric] using kn
      by (intro exI [of _ "Suc k"]) (simp add: n_def)
  qed
qed

section \<open>The sequence stays sorted\<close>

lemma dates_nth: "j < length (a st) \<Longrightarrow> dates st ! j = date st (a st ! j)"
  by (simp add: dates_def)

lemma dates_insertAt:
  "dates (insertAt (stampID st p gid) p gid' k) = take k (dates st) @ date st p # drop k (dates st)"
  by (simp add: dates_def take_map drop_map)

lemma sorted_insert:
  assumes s: "sorted (dates st)" and pl: "placed st t k" and k: "k \<le> length (a st)"
  shows "sorted (take k (dates st) @ t # drop k (dates st))"
proof -
  let ?ds = "dates st"
  let ?n = "length (a st)"
  have len: "length ?ds = ?n" by (simp add: dates_def)
  have mono: "?ds ! i \<le> ?ds ! j" if "i \<le> j" "j < ?n" for i j
    using s that len by (simp add: sorted_nth_mono)
  have halves: "sorted (take k ?ds)" "sorted (drop k ?ds)"
    using s by (simp_all add: sorted_wrt_take sorted_wrt_drop)
  have lo: "x \<le> t" if "x \<in> set (take k ?ds)" for x
  proof -
    from that obtain i where i: "i < k" "i < ?n" "x = ?ds ! i"
      using len by (auto simp: in_set_conv_nth)
    have "0 < k" using i by simp
    then consider (A) "k = ?n" "?ds ! (?n - 1) \<le> t" | (C) "k < ?n" "?ds ! (k - 1) < t"
      using pl i by (auto simp: placed_def Let_def dates_nth)
    then show ?thesis
    proof cases
      case A
      have "?ds ! i \<le> ?ds ! (?n - 1)" using i by (intro mono) auto
      then show ?thesis using A i by simp
    next
      case C
      have "?ds ! i \<le> ?ds ! (k - 1)" using i C by (intro mono) auto
      then show ?thesis using C i by simp
    qed
  qed
  have hi: "t \<le> y" if "y \<in> set (drop k ?ds)" for y
  proof -
    from that obtain j where j: "k \<le> j" "j < ?n" "y = ?ds ! j"
      using len by (auto simp: in_set_conv_nth) (metis add.commute le_add2 less_diff_conv)
    then have kn: "k < ?n" by simp
    then consider (B) "k = 0" "t \<le> ?ds ! 0"
      | (C) "0 < k" "\<forall>j. k \<le> j \<and> j < ?n \<longrightarrow> t \<le> ?ds ! j"
      using pl by (auto simp: placed_def Let_def dates_nth)
    then show ?thesis
    proof cases
      case B
      have "?ds ! 0 \<le> ?ds ! j" using j by (intro mono) auto
      then show ?thesis using B j by simp
    next
      case C
      then show ?thesis using j by simp
    qed
  qed
  show ?thesis
    using halves lo hi by (auto simp: sorted_append dest: order_trans)
qed

lemma Create_sorted:
  assumes "sorted (dates st)"
  shows "sorted (dates (snd (Create sha st article)))"
proof (cases article)
  case None
  then show ?thesis using assms by (simp add: Create_nil)
next
  case (Some p)
  show ?thesis
  proof (cases "m st (sha (uuidNamespace st) (GUID (heap st p)))")
    case (Some q)
    then show ?thesis using assms \<open>article = Some p\<close> by (simp add: Create_present)
  next
    case None
    from Create_fresh [where sha = sha and st = st and p = p, OF None]
    obtain k where k: "k \<le> length (a st)"
      "Create sha st (Some p) =
         (Inr (Some p),
          insertAt (stampID st p (sha (uuidNamespace st) (GUID (heap st p)))) p
            (sha (uuidNamespace st) (GUID (heap st p))) k)"
      "placed st (date st p) k"
      by blast
    show ?thesis
      using sorted_insert [OF assms k(3) k(1)] k(2) \<open>article = Some p\<close>
      by (simp add: dates_insertAt)
  qed
qed

lemma Creates_sorted: "sorted (dates st) \<Longrightarrow> sorted (dates (Creates sha st ps))"
  by (induction ps arbitrary: st) (simp_all add: Create_sorted)

section \<open>What List returns\<close>

lemma hasCategory_iff: "hasCategory cat cs \<longleftrightarrow> set cs \<inter> cat \<noteq> {}"
  by (induction cs) auto

lemma List_loop_filter:
  assumes "0 \<le> found"
    and P: "\<And>p. P p \<longleftrightarrow>
              \<not> (cat \<noteq> {} \<and> (length (Categories (heap st p)) = 0
                    \<or> \<not> hasCategory cat (Categories (heap st p)))) \<and>
              \<not> (feed \<noteq> [] \<and> FeedID (heap st p) \<noteq> feed)"
  shows "List_loop st cat feed pageSize i found res =
           res @ (if found < pageSize
                  then take (nat (pageSize - found)) (filter P (drop i (a st)))
                  else filter P (drop i (a st)))"
  using assms
proof (induction st cat feed pageSize i found res rule: List_loop.induct)
  case (1 st cat feed pageSize i found res)
  note P = "1.prems"(2)
  show ?case
  proof (cases "i < length (a st)")
    case False
    then show ?thesis by (subst List_loop.simps) simp
  next
    case True
    let ?cur = "a st ! i"
    have d: "drop i (a st) = ?cur # drop (i + 1) (a st)"
      using True by (simp add: Cons_nth_drop_Suc)
    show ?thesis
    proof (cases "cat \<noteq> {} \<and> (length (Categories (heap st ?cur)) = 0
                    \<or> \<not> hasCategory cat (Categories (heap st ?cur)))")
      case skip: True
      have "List_loop st cat feed pageSize i found res =
              List_loop st cat feed pageSize (i + 1) found res"
        using True skip by (subst List_loop.simps) (auto simp: Let_def)
      also have "\<dots> = res @ (if found < pageSize
                  then take (nat (pageSize - found)) (filter P (drop (i + 1) (a st)))
                  else filter P (drop (i + 1) (a st)))"
        using "1.IH"(1) [OF True refl skip "1.prems"(1)] P by simp
      finally show ?thesis using skip d P [of ?cur] by simp
    next
      case keep1: False
      show ?thesis
      proof (cases "feed \<noteq> [] \<and> FeedID (heap st ?cur) \<noteq> feed")
        case skip: True
        have "List_loop st cat feed pageSize i found res =
                List_loop st cat feed pageSize (i + 1) found res"
          using \<open>i < length (a st)\<close> skip keep1 by (subst List_loop.simps) (auto simp: Let_def)
        also have "\<dots> = res @ (if found < pageSize
                    then take (nat (pageSize - found)) (filter P (drop (i + 1) (a st)))
                    else filter P (drop (i + 1) (a st)))"
          using "1.IH"(2) [OF \<open>i < length (a st)\<close> refl keep1 skip "1.prems"(1)] P by simp
        finally show ?thesis using skip d P [of ?cur] by simp
      next
        case keep2: False
        have m: "P ?cur" using keep1 keep2 P [of ?cur] by blast
        show ?thesis
        proof (cases "found + 1 = pageSize")
          case True
          have "List_loop st cat feed pageSize i found res = res @ [?cur]"
            using \<open>i < length (a st)\<close> keep1 keep2 True by (subst List_loop.simps) (auto simp: Let_def)
          moreover have "nat (pageSize - found) = 1" using True by simp
          ultimately show ?thesis using m d True by simp
        next
          case False
          have f1: "0 \<le> found + 1" using "1.prems"(1) by simp
          have "List_loop st cat feed pageSize i found res =
                  List_loop st cat feed pageSize (i + 1) (found + 1) (res @ [?cur])"
            using \<open>i < length (a st)\<close> keep1 keep2 False by (subst List_loop.simps) (auto simp: Let_def)
          also have "\<dots> = (res @ [?cur]) @ (if found + 1 < pageSize
                    then take (nat (pageSize - (found + 1))) (filter P (drop (i + 1) (a st)))
                    else filter P (drop (i + 1) (a st)))"
            using "1.IH"(3) [OF \<open>i < length (a st)\<close> refl keep1 keep2 False f1] P by simp
          finally have step: "List_loop st cat feed pageSize i found res =
              (res @ [?cur]) @ (if found + 1 < pageSize
                    then take (nat (pageSize - (found + 1))) (filter P (drop (i + 1) (a st)))
                    else filter P (drop (i + 1) (a st)))" .
          show ?thesis
          proof (cases "found < pageSize")
            case True
            then have lt: "found + 1 < pageSize" using False by simp
            have "nat (pageSize - found) = Suc (nat (pageSize - (found + 1)))" using lt by simp
            then show ?thesis using step lt True m d by simp
          next
            case False
            then show ?thesis using step m d by simp
          qed
        qed
      qed
    qed
  qed
qed

lemma List_loop_matches:
  "List_loop st (set categories) feed pageSize i 0 [] =
     page pageSize (filter (matches st categories feed) (drop i (a st)))"
proof -
  have "matches st categories feed p \<longleftrightarrow>
          \<not> (set categories \<noteq> {} \<and> (length (Categories (heap st p)) = 0
                \<or> \<not> hasCategory (set categories) (Categories (heap st p)))) \<and>
          \<not> (feed \<noteq> [] \<and> FeedID (heap st p) \<noteq> feed)" for p
    by (auto simp: matches_def hasCategory_iff)
  from List_loop_filter [where P = "matches st categories feed" and found = 0, OF _ this]
  show ?thesis by (simp add: page_def)
qed

lemma List_eq:
  assumes "findArticleCursorIndex st cursor = (i, True)"
  shows "List st cursor pageSize feed categories =
           Inr (page pageSize (filter (matches st categories feed) (drop i (a st))))"
  using assms by (simp add: List_def List_loop_matches)

text \<open>
  C6. Once the cursor resolves to the start index \<open>i\<close>, \<open>List\<close> returns the page of the
  articles from \<open>i\<close> on that match: with a non-empty category filter every returned
  article has at least one category and shares one with the filter (an article without
  categories is never returned); with an empty category filter only the feed filter applies.
\<close>

theorem List_category_filter:
  assumes "findArticleCursorIndex st cursor = (i, True)"
  shows "List st cursor pageSize feed categories =
           Inr (page pageSize (filter (matches st categories feed) (drop i (a st)))) \<and>
         (categories \<noteq> [] \<longrightarrow>
            (\<forall>res. List st cursor pageSize feed categories = Inr res \<longrightarrow>
               (\<forall>p \<in> set res. Categories (heap st p) \<noteq> [] \<and>
                  (\<exists>c \<in> set (Categories (heap st p)). c \<in> set categories)))) \<and>
         (categories = [] \<longrightarrow>
            List st cursor pageSize feed categories =
              Inr (page pageSize (filter (\<lambda>p. feed = [] \<or> FeedID (heap st p) = feed) (drop i (a st)))))"
proof -
  have 1: "List st cursor pageSize feed categories =
           Inr (page pageSize (filter (matches st categories feed) (drop i (a st))))"
    by (rule List_eq [OF assms])
  have sub: "set (page pageSize xs) \<subseteq> set xs" for xs :: "ref list"
    by (auto simp: page_def dest: in_set_takeD)
  have 2: "Categories (heap st p) \<noteq> [] \<and> (\<exists>c \<in> set (Categories (heap st p)). c \<in> set categories)"
    if "categories \<noteq> []" "List st cursor pageSize feed categories = Inr res" "p \<in> set res" for res p
  proof -
    have "res = page pageSize (filter (matches st categories feed) (drop i (a st)))"
      using that(2) 1 by simp
    then have "p \<in> set (filter (matches st categories feed) (drop i (a st)))"
      using that(3) sub [of "filter (matches st categories feed) (drop i (a st))"] by blast
    then have "matches st categories feed p" by simp
    then show ?thesis using that(1) by (auto simp: matches_def)
  qed
  have 3: "matches st [] feed = (\<lambda>p. feed = [] \<or> FeedID (heap st p) = feed)"
    by (auto simp: matches_def)
  show ?thesis
    using 1 2 3 by auto
qed

theorem List_category_filter_witness:
  "List (Creates sampleSHA1 (NewArticleStore listHeap) [0, 1, 2, 3, 4]) [] 6 [] [''cat_4'', ''cat_3'']
     = Inr [0, 1, 4] \<and>
   List (Creates sampleSHA1 (NewArticleStore listHeap) [0, 1, 2, 3, 4]) [] 6 ''feed_id'' []
     = Inr [0, 1, 3]"
proof -
  let ?st = "Creates sampleSHA1 (NewArticleStore listHeap) [0, 1, 2, 3, 4]"
  have c: "findArticleCursorIndex ?st [] = (0, True)"
    by (simp add: findArticleCursorIndex_def)
  have e: "page 6 (filter (matches ?st [''cat_4'', ''cat_3''] []) (drop 0 (a ?st))) = [0, 1, 4]"
    "page 6 (filter (matches ?st [] ''feed_id'') (drop 0 (a ?st))) = [0, 1, 3]"
    by code_simp+
  show ?thesis
    using List_category_filter [OF c, of 6 "[]" "[''cat_4'', ''cat_3'']"]
      List_category_filter [OF c, of 6 "''feed_id''" "[]"] e
    by simp
qed

section \<open>Everything created is stored\<close>

lemma Create_fresh_fields:
  assumes fresh: "m st (sha (uuidNamespace st) (GUID (heap st p))) = None"
  shows "mset (a (snd (Create sha st (Some p)))) = mset (a st) + {#p#}"
    and "m (snd (Create sha st (Some p))) = (m st)(sha (uuidNamespace st) (GUID (heap st p)) \<mapsto> p)"
    and "uuidNamespace (snd (Create sha st (Some p))) = uuidNamespace st"
    and "heap (snd (Create sha st (Some p))) =
           (heap st)(p := (heap st p)\<lparr>ID := sha (uuidNamespace st) (GUID (heap st p))\<rparr>)"
    and "fst (Create sha st (Some p)) = Inr (Some p)"
proof -
  from Create_fresh [where sha = sha and st = st and p = p, OF fresh]
  obtain k where k: "k \<le> length (a st)"
    "Create sha st (Some p) =
       (Inr (Some p),
        insertAt (stampID st p (sha (uuidNamespace st) (GUID (heap st p)))) p
          (sha (uuidNamespace st) (GUID (heap st p))) k)"
    by blast
  have "mset (take k (a st)) + mset (drop k (a st)) = mset (a st)"
    by (metis append_take_drop_id mset_append)
  then have "mset (take k (a st) @ p # drop k (a st)) = mset (a st) + {#p#}"
    by simp
  then show "mset (a (snd (Create sha st (Some p)))) = mset (a st) + {#p#}"
    using k(2) by simp
  show "m (snd (Create sha st (Some p))) = (m st)(sha (uuidNamespace st) (GUID (heap st p)) \<mapsto> p)"
    "uuidNamespace (snd (Create sha st (Some p))) = uuidNamespace st"
    "heap (snd (Create sha st (Some p))) =
           (heap st)(p := (heap st p)\<lparr>ID := sha (uuidNamespace st) (GUID (heap st p))\<rparr>)"
    "fst (Create sha st (Some p)) = Inr (Some p)"
    using k(2) by simp_all
qed

lemma Creates_mset:
  assumes "distinct (map (\<lambda>p. sha (uuidNamespace st) (GUID (heap st p))) ps)"
    and "\<forall>p \<in> set ps. m st (sha (uuidNamespace st) (GUID (heap st p))) = None"
  shows "mset (a (Creates sha st ps)) = mset (a st) + mset ps"
  using assms
proof (induction ps arbitrary: st)
  case Nil
  then show ?case by simp
next
  case (Cons p ps)
  let ?st' = "snd (Create sha st (Some p))"
  have fresh: "m st (sha (uuidNamespace st) (GUID (heap st p))) = None"
    using Cons.prems(2) by simp
  note f = Create_fresh_fields [where sha = sha, OF fresh]
  have g: "GUID (heap ?st' q) = GUID (heap st q)" for q
    by (simp add: f(4))
  have d: "distinct (map (\<lambda>q. sha (uuidNamespace ?st') (GUID (heap ?st' q))) ps)"
    using Cons.prems(1) by (simp add: g f(3))
  have n: "\<forall>q \<in> set ps. m ?st' (sha (uuidNamespace ?st') (GUID (heap ?st' q))) = None"
  proof
    fix q assume q: "q \<in> set ps"
    have "sha (uuidNamespace st) (GUID (heap st q)) \<noteq> sha (uuidNamespace st) (GUID (heap st p))"
      using Cons.prems(1) q by (auto simp: image_iff)
    moreover have "m st (sha (uuidNamespace st) (GUID (heap st q))) = None"
      using Cons.prems(2) q by simp
    ultimately show "m ?st' (sha (uuidNamespace ?st') (GUID (heap ?st' q))) = None"
      by (simp add: g f(2,3))
  qed
  show ?case
    using Cons.IH [OF d n] f(1) by simp
qed

lemma NewArticleStore_fields [simp]:
  "a (NewArticleStore h) = []" "m (NewArticleStore h) = Map.empty"
  "heap (NewArticleStore h) = h" "uuidNamespace (NewArticleStore h) = store_uuidNamespace"
  "dates (NewArticleStore h) = []"
  by (simp_all add: NewArticleStore_def dates_def)

text \<open>
  C1. After any sequence of \<open>Create\<close> calls with non-nil articles of pairwise distinct
  GUIDs on a fresh store, \<open>List\<close> with the empty cursor, page size 0 and no filters returns
  the whole stored sequence, in non-descending order of publish timestamp; when the
  identifier generator does not collide on these GUIDs, that is every article created.
\<close>

theorem Creates_List_sorted:
  assumes "distinct (map (\<lambda>p. GUID (h p)) ps)"
  shows "\<exists>res. List (Creates sha (NewArticleStore h) ps) [] 0 [] [] = Inr res \<and>
           res = a (Creates sha (NewArticleStore h) ps) \<and>
           sorted (map (date (Creates sha (NewArticleStore h) ps)) res) \<and>
           (inj_on (sha store_uuidNamespace) ((\<lambda>p. GUID (h p)) ` set ps) \<longrightarrow> mset res = mset ps)"
proof -
  let ?st = "Creates sha (NewArticleStore h) ps"
  have c: "findArticleCursorIndex ?st [] = (0, True)"
    by (simp add: findArticleCursorIndex_def)
  have l: "List ?st [] 0 [] [] = Inr (a ?st)"
    using List_eq [OF c, of 0 "[]" "[]"] by (simp add: page_def matches_def)
  have s: "sorted (map (date ?st) (a ?st))"
    using Creates_sorted [of "NewArticleStore h" sha ps] by (simp add: dates_def)
  have ms: "mset (a ?st) = mset ps"
    if inj: "inj_on (sha store_uuidNamespace) ((\<lambda>p. GUID (h p)) ` set ps)"
  proof -
    have "distinct (map (sha store_uuidNamespace) (map (\<lambda>p. GUID (h p)) ps))"
      using assms inj by (subst distinct_map) simp
    then have "distinct (map (\<lambda>p. sha (uuidNamespace (NewArticleStore h))
                  (GUID (heap (NewArticleStore h) p))) ps)"
      by (simp add: comp_def)
    from Creates_mset [where sha = sha and st = "NewArticleStore h" and ps = ps, OF this]
    show ?thesis by simp
  qed
  show ?thesis using l s ms by simp
qed

theorem Creates_List_sorted_witness:
  "(\<exists>res. List (Creates sampleSHA1 (NewArticleStore testHeap) [0, 1, 2]) [] 0 [] [] = Inr res \<and>
      res = a (Creates sampleSHA1 (NewArticleStore testHeap) [0, 1, 2]) \<and>
      sorted (map (date (Creates sampleSHA1 (NewArticleStore testHeap) [0, 1, 2])) res) \<and>
      mset res = mset [0, 1, 2]) \<and>
   map (\<lambda>p. GUID (heap (Creates sampleSHA1 (NewArticleStore testHeap) [0, 1, 2]) p))
     (a (Creates sampleSHA1 (NewArticleStore testHeap) [0, 1, 2])) = [''first'', ''second'', ''third'']"
proof -
  have d: "distinct (map (\<lambda>p. GUID (testHeap p)) [0, 1, 2])"
    by (simp add: testHeap_def mkArticle_def)
  have i: "inj_on (sampleSHA1 store_uuidNamespace) ((\<lambda>p. GUID (testHeap p)) ` set [0, 1, 2])"
    by (simp add: testHeap_def mkArticle_def sampleSHA1_def)
  have g: "map (\<lambda>p. GUID (heap (Creates sampleSHA1 (NewArticleStore testHeap) [0, 1, 2]) p))
     (a (Creates sampleSHA1 (NewArticleStore testHeap) [0, 1, 2])) = [''first'', ''second'', ''third'']"
    by code_simp
  show ?thesis
    using Creates_List_sorted [OF d, of sampleSHA1] i g by simp
qed

section \<open>Sequence and index agree\<close>

lemma store_inv_fresh: "store_inv sha (NewArticleStore h)"
  by (simp add: store_inv_def)

lemma store_inv_Reset: "store_inv sha (Reset st)"
  by (simp add: store_inv_def Reset_def)

lemma store_invD:
  assumes "store_inv sha st"
  shows "distinct (a st)"
    and "p \<in> set (a st) \<Longrightarrow> ID (heap st p) = sha (uuidNamespace st) (GUID (heap st p))"
    and "p \<in> set (a st) \<Longrightarrow> m st (ID (heap st p)) = Some p"
    and "m st k = Some p \<Longrightarrow> p \<in> set (a st)"
    and "m st k = Some p \<Longrightarrow> ID (heap st p) = k"
  using assms unfolding store_inv_def by blast+

lemma store_inv_insert:
  assumes inv: "store_inv sha st"
    and fresh: "m st (sha (uuidNamespace st) (GUID (heap st p))) = None"
  shows "store_inv sha (insertAt (stampID st p (sha (uuidNamespace st) (GUID (heap st p)))) p
           (sha (uuidNamespace st) (GUID (heap st p))) k)"
proof -
  define gid where "gid = sha (uuidNamespace st) (GUID (heap st p))"
  let ?st' = "insertAt (stampID st p gid) p gid k"
  have new: "p \<notin> set (a st)"
  proof
    assume "p \<in> set (a st)"
    then have "m st (sha (uuidNamespace st) (GUID (heap st p))) = Some p"
      using store_invD(2,3) [OF inv, of p] by simp
    then show False using fresh by simp
  qed
  have seta: "set (a ?st') = insert p (set (a st))"
  proof -
    have "set (take k (a st)) \<union> set (drop k (a st)) = set (a st)"
      by (metis append_take_drop_id set_append)
    then show ?thesis by auto
  qed
  have d: "distinct (a ?st')"
  proof -
    have da: "distinct (a st)" using inv by (rule store_invD)
    then have "distinct (take k (a st))" "distinct (drop k (a st))"
      "set (take k (a st)) \<inter> set (drop k (a st)) = {}"
      by (simp_all add: set_take_disj_set_drop_if_distinct)
    moreover have "p \<notin> set (take k (a st))" "p \<notin> set (drop k (a st))"
      using new by (auto dest: in_set_takeD in_set_dropD)
    ultimately show ?thesis by auto
  qed
  have old: "ID (heap ?st' q) = ID (heap st q) \<and> GUID (heap ?st' q) = GUID (heap st q) \<and>
             ID (heap st q) \<noteq> gid" if "q \<in> set (a st)" for q
  proof -
    have "q \<noteq> p" using that new by auto
    moreover have "m st (ID (heap st q)) = Some q" using that by (rule store_invD(3) [OF inv])
    then have "ID (heap st q) \<noteq> gid" using fresh by (auto simp: gid_def)
    ultimately show ?thesis by simp
  qed
  have 2: "ID (heap ?st' q) = sha (uuidNamespace ?st') (GUID (heap ?st' q)) \<and>
           m ?st' (ID (heap ?st' q)) = Some q" if "q \<in> set (a ?st')" for q
  proof (cases "q = p")
    case True
    then show ?thesis by (simp add: gid_def)
  next
    case False
    then have q: "q \<in> set (a st)" using that seta by auto
    then show ?thesis using old [OF q] store_invD(2,3) [OF inv q] by simp
  qed
  have 3: "r \<in> set (a ?st') \<and> ID (heap ?st' r) = k'" if "m ?st' k' = Some r" for k' r
  proof (cases "k' = gid")
    case True
    then have "r = p" using that by simp
    then show ?thesis using True seta by simp
  next
    case False
    then have "m st k' = Some r" using that by simp
    then have r: "r \<in> set (a st)" "ID (heap st r) = k'" by (rule store_invD(4,5) [OF inv])+
    then show ?thesis using old [OF r(1)] seta by simp
  qed
  show ?thesis
    unfolding gid_def [symmetric] using d 2 3 unfolding store_inv_def by blast
qed

lemma store_inv_Create:
  assumes "store_inv sha st"
  shows "store_inv sha (snd (Create sha st article))"
proof (cases article)
  case None
  then show ?thesis using assms by (simp add: Create_nil)
next
  case (Some p)
  show ?thesis
  proof (cases "m st (sha (uuidNamespace st) (GUID (heap st p)))")
    case (Some q)
    then show ?thesis using assms \<open>article = Some p\<close> by (simp add: Create_present)
  next
    case None
    from Create_fresh [where sha = sha and st = st and p = p, OF None]
    obtain k where k:
      "Create sha st (Some p) =
         (Inr (Some p),
          insertAt (stampID st p (sha (uuidNamespace st) (GUID (heap st p)))) p
            (sha (uuidNamespace st) (GUID (heap st p))) k)"
      by blast
    show ?thesis
      using store_inv_insert [OF assms None, of k] k \<open>article = Some p\<close> by simp
  qed
qed

lemma reachable_inv: "reachable sha st \<Longrightarrow> store_inv sha st"
  by (induction rule: reachable.induct)
     (simp_all add: store_inv_fresh store_inv_Create store_inv_Reset)

lemma reachable_sorted: "reachable sha st \<Longrightarrow> sorted (dates st)"
proof (induction rule: reachable.induct)
  case (fresh h)
  show ?case by simp
next
  case (create st article)
  from create.IH show ?case by (rule Create_sorted)
next
  case (reset st)
  show ?case by (simp add: Reset_def dates_def)
qed

lemma reachable_Creates: "reachable sha st \<Longrightarrow> reachable sha (Creates sha st ps)"
  by (induction ps arbitrary: st) (simp_all add: reachable.create)

text \<open>
  C9. In every state reached from a fresh store by \<open>Create\<close> and \<open>Reset\<close> calls, each
  article of the sequence occurs there once, is indexed under its own identifier and
  under no other key, and every index entry points to an article of the sequence.
\<close>

theorem reachable_bijection:
  assumes "reachable sha st"
  shows "distinct (a st) \<and>
         (\<forall>p \<in> set (a st). m st (ID (heap st p)) = Some p \<and>
                             (\<forall>k. m st k = Some p \<longrightarrow> k = ID (heap st p))) \<and>
         (\<forall>k p. m st k = Some p \<longrightarrow> p \<in> set (a st))"
  using reachable_inv [OF assms] unfolding store_inv_def by blast

theorem reachable_bijection_witness:
  "reachable sampleSHA1 (Creates sampleSHA1 (Reset (Creates sampleSHA1 (NewArticleStore testHeap) [0])) [0, 1, 2]) \<and>
   distinct (a (Creates sampleSHA1 (Reset (Creates sampleSHA1 (NewArticleStore testHeap) [0])) [0, 1, 2])) \<and>
   a (Creates sampleSHA1 (Reset (Creates sampleSHA1 (NewArticleStore testHeap) [0])) [0, 1, 2]) = [0, 2, 1] \<and>
   m (Creates sampleSHA1 (Reset (Creates sampleSHA1 (NewArticleStore testHeap) [0])) [0, 1, 2])
     ''cabe9f84-ab7e-494c-bf53-7499adeb30ac/second'' = Some 2"
proof -
  let ?st = "Creates sampleSHA1 (Reset (Creates sampleSHA1 (NewArticleStore testHeap) [0])) [0, 1, 2]"
  have r: "reachable sampleSHA1 ?st"
    by (intro reachable_Creates reachable.reset reachable.fresh)
  have e: "a ?st = [0, 2, 1]" "ID (heap ?st 2) = ''cabe9f84-ab7e-494c-bf53-7499adeb30ac/second''"
    by code_simp+
  show ?thesis
    using reachable_bijection [OF r] r e by simp
qed

section \<open>Idempotence and frame of Create\<close>

lemma Create_fresh_length:
  assumes "m st (sha (uuidNamespace st) (GUID (heap st p))) = None"
  shows "length (a (snd (Create sha st (Some p)))) = length (a st) + 1"
    and "p \<in> set (a (snd (Create sha st (Some p))))"
proof -
  have "size (mset (a (snd (Create sha st (Some p))))) = size (mset (a st) + {#p#})"
    using Create_fresh_fields(1) [where sha = sha, OF assms] by simp
  then show "length (a (snd (Create sha st (Some p)))) = length (a st) + 1" by simp
  have "set_mset (mset (a (snd (Create sha st (Some p))))) = set_mset (mset (a st) + {#p#})"
    using Create_fresh_fields(1) [where sha = sha, OF assms] by simp
  then show "p \<in> set (a (snd (Create sha st (Some p))))" by simp
qed

text \<open>
  C3. In every state, for two non-nil articles with the same GUID: the first \<open>Create\<close>
  returns an article \<open>q\<close> without error and leaves it in the index under the GUID's
  identifier; the second \<open>Create\<close> returns that same \<open>q\<close> without error and changes
  nothing (sequence, index and every article, the second one included); the sequence has
  grown by at most one over the two calls.
\<close>

theorem Create_idempotent:
  assumes "GUID (heap st p1) = GUID (heap st p2)"
  shows "\<exists>q. fst (Create sha st (Some p1)) = Inr (Some q) \<and>
           m (snd (Create sha st (Some p1))) (sha (uuidNamespace st) (GUID (heap st p1))) = Some q \<and>
           Create sha (snd (Create sha st (Some p1))) (Some p2) =
             (Inr (Some q), snd (Create sha st (Some p1))) \<and>
           length (a (snd (Create sha st (Some p1)))) \<le> length (a st) + 1"
proof (cases "m st (sha (uuidNamespace st) (GUID (heap st p1)))")
  case (Some q)
  have 1: "Create sha st (Some p1) = (Inr (Some q), st)"
    using Some by (rule Create_present)
  have "m st (sha (uuidNamespace st) (GUID (heap st p2))) = Some q"
    using Some assms by simp
  then have 2: "Create sha st (Some p2) = (Inr (Some q), st)"
    by (rule Create_present)
  show ?thesis
    unfolding 1 fst_conv snd_conv using 2 Some by (intro exI [of _ q]) simp
next
  case None
  let ?st1 = "snd (Create sha st (Some p1))"
  note f = Create_fresh_fields [where sha = sha, OF None]
  have "GUID (heap ?st1 p2) = GUID (heap st p2)"
    by (cases "p2 = p1") (simp_all add: f(4))
  then have g: "GUID (heap ?st1 p2) = GUID (heap st p1)"
    using assms by simp
  have "m ?st1 (sha (uuidNamespace ?st1) (GUID (heap ?st1 p2))) = Some p1"
    by (simp add: g f(2,3))
  then have 2: "Create sha ?st1 (Some p2) = (Inr (Some p1), ?st1)"
    by (rule Create_present)
  show ?thesis
    using 2 f(2,5) Create_fresh_length(1) [where sha = sha, OF None] by simp
qed

theorem Create_idempotent_witness:
  "fst (Create sampleSHA1 (NewArticleStore guidHeap) (Some 0))
     = Inr (Some 0) \<and>
   Create sampleSHA1
     (snd (Create sampleSHA1 (NewArticleStore guidHeap) (Some 0)))
     (Some 1) =
     (Inr (Some 0),
      snd (Create sampleSHA1 (NewArticleStore guidHeap) (Some 0))) \<and>
   a (snd (Create sampleSHA1 (NewArticleStore guidHeap) (Some 0)))
     = [0]"
proof -
  let ?st = "NewArticleStore guidHeap"
  have g: "GUID (heap ?st 0) = GUID (heap ?st 1)"
    by (simp add: guidHeap_def mkArticle_def)
  have e: "fst (Create sampleSHA1 ?st (Some 0)) = Inr (Some 0)"
    "a (snd (Create sampleSHA1 ?st (Some 0))) = [0]"
    by (simp_all add: Create_def NewArticleStore_def Let_def)
  from Create_idempotent [OF g, of sampleSHA1]
  obtain q where q: "fst (Create sampleSHA1 ?st (Some 0)) = Inr (Some q)"
    "Create sampleSHA1 (snd (Create sampleSHA1 ?st (Some 0))) (Some 1) =
       (Inr (Some q), snd (Create sampleSHA1 ?st (Some 0)))"
    by blast
  have "q = 0" using q(1) e(1) by simp
  then show ?thesis using q(2) e by simp
qed

text \<open>
  C10. When the identifier derived from the GUID is not in the index, \<open>Create\<close> returns the
  input pointer, the article behind it is the input with only \<open>ID\<close> replaced by the
  generated identifier (every other field is unchanged, no other article is touched), and
  it is in the sequence and in the index. When the identifier is in the index, \<open>Create\<close>
  returns the indexed article and the state, the input article included, is unchanged.
\<close>

theorem Create_frame:
  "(m st (sha (uuidNamespace st) (GUID (heap st p))) = None \<longrightarrow>
      fst (Create sha st (Some p)) = Inr (Some p) \<and>
      heap (snd (Create sha st (Some p))) =
        (heap st)(p := (heap st p)\<lparr>ID := sha (uuidNamespace st) (GUID (heap st p))\<rparr>) \<and>
      p \<in> set (a (snd (Create sha st (Some p)))) \<and>
      m (snd (Create sha st (Some p))) (sha (uuidNamespace st) (GUID (heap st p))) = Some p \<and>
      ID (heap (snd (Create sha st (Some p))) p) = sha (uuidNamespace st) (GUID (heap st p)) \<and>
      FeedID (heap (snd (Create sha st (Some p))) p) = FeedID (heap st p) \<and>
      GUID (heap (snd (Create sha st (Some p))) p) = GUID (heap st p) \<and>
      Title (heap (snd (Create sha st (Some p))) p) = Title (heap st p) \<and>
      Link (heap (snd (Create sha st (Some p))) p) = Link (heap st p) \<and>
      Comments (heap (snd (Create sha st (Some p))) p) = Comments (heap st p) \<and>
      PublishDate (heap (snd (Create sha st (Some p))) p) = PublishDate (heap st p) \<and>
      Categories (heap (snd (Create sha st (Some p))) p) = Categories (heap st p) \<and>
      Enclosures (heap (snd (Create sha st (Some p))) p) = Enclosures (heap st p) \<and>
      Description (heap (snd (Create sha st (Some p))) p) = Description (heap st p) \<and>
      Author (heap (snd (Create sha st (Some p))) p) = Author (heap st p) \<and>
      Content (heap (snd (Create sha st (Some p))) p) = Content (heap st p) \<and>
      FullText (heap (snd (Create sha st (Some p))) p) = FullText (heap st p)) \<and>
   (\<forall>q. m st (sha (uuidNamespace st) (GUID (heap st p))) = Some q \<longrightarrow>
      Create sha st (Some p) = (Inr (Some q), st))"
proof (cases "m st (sha (uuidNamespace st) (GUID (heap st p)))")
  case (Some q)
  then have "Create sha st (Some p) = (Inr (Some q), st)" by (rule Create_present)
  then show ?thesis using Some by simp
next
  case None
  note f = Create_fresh_fields [where sha = sha, OF None]
  show ?thesis
    using None f(2,5) Create_fresh_length(2) [where sha = sha, OF None]
    by (simp add: f(4))
qed

theorem Create_frame_witness:
  "heap (snd (Create sampleSHA1 (NewArticleStore testHeap) (Some 0))) 0 =
     (testHeap 0)\<lparr>ID := ''cabe9f84-ab7e-494c-bf53-7499adeb30ac/first''\<rparr> \<and>
   Title (heap (snd (Create sampleSHA1 (NewArticleStore testHeap) (Some 0))) 0) = Title (testHeap 0) \<and>
   Create sampleSHA1 (snd (Create sampleSHA1 (NewArticleStore testHeap) (Some 0))) (Some 0) =
     (Inr (Some 0), snd (Create sampleSHA1 (NewArticleStore testHeap) (Some 0)))"
proof -
  let ?st0 = "NewArticleStore testHeap"
  let ?st1 = "snd (Create sampleSHA1 ?st0 (Some 0))"
  have e0: "m ?st0 (sampleSHA1 (uuidNamespace ?st0) (GUID (heap ?st0 0))) = None"
    "sampleSHA1 (uuidNamespace ?st0) (GUID (heap ?st0 0)) = ''cabe9f84-ab7e-494c-bf53-7499adeb30ac/first''"
    by (simp_all add: testHeap_def mkArticle_def sampleSHA1_def store_uuidNamespace_def)
  have e1: "m ?st1 (sampleSHA1 (uuidNamespace ?st1) (GUID (heap ?st1 0))) = Some 0"
    by (simp add: Create_def NewArticleStore_def Let_def)
  show ?thesis
    using Create_frame [of ?st0 sampleSHA1 0] Create_frame [of ?st1 sampleSHA1 0] e0 e1
    by simp
qed

section \<open>Where a new article is placed\<close>

text \<open>
  C4 as stated fails. Articles 0 .. 3 with timestamps 1, 2, 3, 2 are created in this order:
  article 3 ties with article 1, which is already stored, and is placed before it by the
  backward scan; created after articles 1 and 2 only, it is prepended, again before
  article 1.
\<close>

theorem Create_tie_counterexample:
  "a (Creates sampleSHA1 (NewArticleStore tieHeap) [0, 1, 2, 3]) = [0, 3, 1, 2] \<and>
   date (Creates sampleSHA1 (NewArticleStore tieHeap) [0, 1, 2, 3]) 1 = 2 \<and>
   date (Creates sampleSHA1 (NewArticleStore tieHeap) [0, 1, 2, 3]) 3 = 2 \<and>
   a (Creates sampleSHA1 (NewArticleStore tieHeap) [1, 2, 3]) = [3, 1, 2]"
  by code_simp

text \<open>
  C4, amended. In every reachable state, a new article whose timestamp is not earlier than
  the last stored article's is appended after all stored articles, so a tie with the latest
  timestamp keeps insertion order; otherwise it is placed right after the stored articles
  with strictly earlier timestamps, hence before every stored article with an equal or
  later timestamp.
\<close>

theorem Create_position:
  assumes r: "reachable sha st"
    and fresh: "m st (sha (uuidNamespace st) (GUID (heap st p))) = None"
  shows "a (snd (Create sha st (Some p))) =
           (if a st = [] \<or> date st (last (a st)) \<le> date st p then a st @ [p]
            else takeWhile (\<lambda>q. date st q < date st p) (a st) @ p #
                 dropWhile (\<lambda>q. date st q < date st p) (a st))"
proof -
  let ?t = "date st p"
  let ?n = "length (a st)"
  let ?P = "\<lambda>q. date st q < ?t"
  from Create_fresh [where sha = sha and st = st and p = p, OF fresh]
  obtain k where k: "k \<le> ?n"
    "Create sha st (Some p) =
       (Inr (Some p),
        insertAt (stampID st p (sha (uuidNamespace st) (GUID (heap st p)))) p
          (sha (uuidNamespace st) (GUID (heap st p))) k)"
    "placed st ?t k"
    by blast
  have a': "a (snd (Create sha st (Some p))) = take k (a st) @ p # drop k (a st)"
    using k(2) by simp
  have s: "sorted (dates st)" using r by (rule reachable_sorted)
  have mono: "date st (a st ! i) \<le> date st (a st ! j)" if "i \<le> j" "j < ?n" for i j
    using sorted_nth_mono [OF s, of i j] that by (simp add: dates_def)
  consider (A) "k = ?n" "?n = 0 \<or> date st (a st ! (?n - 1)) \<le> ?t"
    | (B) "k = 0" "0 < ?n" "?t < date st (a st ! (?n - 1))" "?t \<le> date st (a st ! 0)"
    | (C) "0 < k" "k < ?n" "?t < date st (a st ! (?n - 1))" "date st (a st ! (k - 1)) < ?t"
          "\<forall>j. k \<le> j \<and> j < ?n \<longrightarrow> ?t \<le> date st (a st ! j)"
    using k(3) unfolding placed_def Let_def by blast
  then show ?thesis
  proof cases
    case A
    then have "a st = [] \<or> date st (last (a st)) \<le> ?t"
      by (cases "a st = []") (simp_all add: last_conv_nth)
    then show ?thesis using a' A(1) by simp
  next
    case B
    have ne: "a st \<noteq> []" using B(2) by auto
    have c: "\<not> (a st = [] \<or> date st (last (a st)) \<le> ?t)"
      using B(3) ne by (simp add: last_conv_nth)
    have "\<not> ?P (a st ! 0)" using B(4) by simp
    then have tw: "takeWhile ?P (a st) = []"
      using B(2) by (cases "a st") simp_all
    then have dw: "dropWhile ?P (a st) = a st"
      by (metis takeWhile_dropWhile_id append_Nil)
    show ?thesis using a' B(1) c tw dw by simp
  next
    case C
    have ne: "a st \<noteq> []" using C(2) by auto
    have c: "\<not> (a st = [] \<or> date st (last (a st)) \<le> ?t)"
      using C(3) ne by (simp add: last_conv_nth)
    have below: "?P (a st ! i)" if "i < k" for i
    proof -
      have "date st (a st ! i) \<le> date st (a st ! (k - 1))"
        using that C(2) by (intro mono) auto
      then show ?thesis using C(4) by simp
    qed
    have "\<not> ?P (a st ! k)" using C(2,5) by (simp add: not_less)
    then have tw: "takeWhile ?P (a st) = take k (a st)"
      using below by (intro takeWhile_eq_take_P_nth) auto
    have "dropWhile ?P (a st) = drop (length (takeWhile ?P (a st))) (a st)"
      by (rule dropWhile_eq_drop)
    then have dw: "dropWhile ?P (a st) = drop k (a st)"
      using tw C(2) by simp
    show ?thesis using a' c tw dw by simp
  qed
qed

theorem Create_position_witness:
  "a (snd (Create sampleSHA1 (Creates sampleSHA1 (NewArticleStore tieHeap) [0, 1, 2]) (Some 3)))
     = [0, 3, 1, 2] \<and>
   a (snd (Create sampleSHA1 (Creates sampleSHA1 (NewArticleStore tieHeap) [0, 1]) (Some 3)))
     = [0, 1, 3]"
proof -
  let ?s3 = "Creates sampleSHA1 (NewArticleStore tieHeap) [0, 1, 2]"
  let ?s2 = "Creates sampleSHA1 (NewArticleStore tieHeap) [0, 1]"
  have r: "reachable sampleSHA1 ?s3" "reachable sampleSHA1 ?s2"
    by (intro reachable_Creates reachable.fresh)+
  have f: "m ?s3 (sampleSHA1 (uuidNamespace ?s3) (GUID (heap ?s3 3))) = None"
    "m ?s2 (sampleSHA1 (uuidNamespace ?s2) (GUID (heap ?s2 3))) = None"
    by code_simp+
  have e: "(if a ?s3 = [] \<or> date ?s3 (last (a ?s3)) \<le> date ?s3 3 then a ?s3 @ [3]
            else takeWhile (\<lambda>q. date ?s3 q < date ?s3 3) (a ?s3) @ 3 #
                 dropWhile (\<lambda>q. date ?s3 q < date ?s3 3) (a ?s3)) = [0, 3, 1, 2]"
    "(if a ?s2 = [] \<or> date ?s2 (last (a ?s2)) \<le> date ?s2 3 then a ?s2 @ [3]
            else takeWhile (\<lambda>q. date ?s2 q < date ?s2 3) (a ?s2) @ 3 #
                 dropWhile (\<lambda>q. date ?s2 q < date ?s2 3) (a ?s2)) = [0, 1, 3]"
    by code_simp+
  show ?thesis
    using Create_position [OF r(1) f(1)] Create_position [OF r(2) f(2)] e by simp
qed

section \<open>Pagination\<close>

lemma ids_distinct:
  assumes "store_inv sha st"
  shows "distinct (map (\<lambda>p. ID (heap st p)) (a st))"
proof -
  have "inj_on (\<lambda>p. ID (heap st p)) (set (a st))"
  proof (rule inj_onI)
    fix p q assume pq: "p \<in> set (a st)" "q \<in> set (a st)" "ID (heap st p) = ID (heap st q)"
    have "Some p = m st (ID (heap st p))"
      using store_invD(3) [OF assms pq(1)] by (rule sym)
    also have "\<dots> = m st (ID (heap st q))"
      by (simp only: pq(3))
    also have "\<dots> = Some q"
      by (rule store_invD(3) [OF assms pq(2)])
    finally show "p = q" by (simp only: option.inject)
  qed
  then show ?thesis using store_invD(1) [OF assms] by (simp add: distinct_map)
qed

lemma ids_nonempty:
  assumes "store_inv sha st" and "\<And>ns k. sha ns k \<noteq> []" and "p \<in> set (a st)"
  shows "ID (heap st p) \<noteq> []"
  using store_invD(2) [OF assms(1,3)] assms(2) by simp

lemma findArticleCursorIndex_loop_nth:
  assumes "distinct (map (\<lambda>p. ID (h p)) ps)" and "j < length ps"
  shows "findArticleCursorIndex_loop h (ID (h (ps ! j))) i ps = (i + j + 1, True)"
  using assms
proof (induction ps arbitrary: i j)
  case Nil
  then show ?case by simp
next
  case (Cons p ps)
  show ?case
  proof (cases j)
    case 0
    then show ?thesis by simp
  next
    case (Suc j')
    then have j': "j' < length ps" using Cons.prems(2) by simp
    then have "ps ! j' \<in> set ps" by simp
    then have ne: "ID (h p) \<noteq> ID (h (ps ! j'))" using Cons.prems(1) by auto
    have "distinct (map (\<lambda>p. ID (h p)) ps)" using Cons.prems(1) by simp
    from Cons.IH [OF this j', of "i + 1"] show ?thesis using ne Suc by simp
  qed
qed

lemma findArticleCursorIndex_nth:
  assumes "store_inv sha st" and "\<And>ns k. sha ns k \<noteq> []" and "j < length (a st)"
  shows "findArticleCursorIndex st (ID (heap st (a st ! j))) = (j + 1, True)"
proof -
  have "ID (heap st (a st ! j)) \<noteq> []"
    using assms by (intro ids_nonempty [of sha st]) auto
  then show ?thesis
    using findArticleCursorIndex_loop_nth [OF ids_distinct [OF assms(1)] assms(3), of 0]
    by (simp add: findArticleCursorIndex_def)
qed

lemma List_plain:
  assumes "findArticleCursorIndex st cursor = (i, True)" and "1 \<le> pageSize"
  shows "List st cursor pageSize [] [] = Inr (take (nat pageSize) (drop i (a st)))"
proof -
  have "matches st [] [] = (\<lambda>p. True)" by (auto simp: matches_def)
  then show ?thesis using List_eq [OF assms(1), of pageSize "[]" "[]"] assms(2)
    by (simp add: page_def)
qed

lemma paginate_from:
  assumes inv: "store_inv sha st" and ne: "\<And>ns k. sha ns k \<noteq> []" and P: "1 \<le> pageSize"
    and c: "findArticleCursorIndex st cursor = (i, True)"
    and fuel: "length (a st) - i < fuel"
  shows "paginate fuel st pageSize cursor = Some (Inr (drop i (a st)))"
  using c fuel
proof (induction fuel arbitrary: i cursor)
  case 0
  then show ?case by simp
next
  case (Suc fuel)
  let ?res = "take (nat pageSize) (drop i (a st))"
  have l: "List st cursor pageSize [] [] = Inr ?res"
    using List_plain [OF Suc.prems(1) P] .
  show ?case
  proof (cases "?res = []")
    case True
    then have "drop i (a st) = []" using P by (simp add: take_eq_Nil)
    then show ?thesis using l True by simp
  next
    case False
    define n where "n = length ?res"
    have n: "0 < n" "i + n \<le> length (a st)" using False by (auto simp: n_def)
    have "last ?res = ?res ! (n - 1)" using False by (simp add: last_conv_nth n_def)
    also have "\<dots> = drop i (a st) ! (n - 1)"
    proof (rule nth_take)
      have "n \<le> nat pageSize" by (simp add: n_def)
      then show "n - 1 < nat pageSize" using n(1) by linarith
    qed
    also have "\<dots> = a st ! (i + (n - 1))"
      using n by (intro nth_drop) simp
    finally have last: "last ?res = a st ! (i + n - 1)" using n by simp
    have "findArticleCursorIndex st (ID (heap st (last ?res))) = (i + n - 1 + 1, True)"
      unfolding last using n by (intro findArticleCursorIndex_nth [OF inv ne]) simp
    then have c': "findArticleCursorIndex st (ID (heap st (last ?res))) = (i + n, True)"
      using n by simp
    have "length (a st) - (i + n) < fuel" using Suc.prems(2) n by simp
    from Suc.IH [OF c' this]
    have rec: "paginate fuel st pageSize (ID (heap st (last ?res))) = Some (Inr (drop (i + n) (a st)))" .
    have "drop (i + n) (a st) = drop n (drop i (a st))" by (simp add: add.commute)
    also have "\<dots> = drop (nat pageSize) (drop i (a st))"
      by (cases "nat pageSize \<le> length (drop i (a st))") (simp_all add: n_def min_def)
    finally have "drop (i + n) (a st) = drop (nat pageSize) (drop i (a st))" .
    then have "?res @ drop (i + n) (a st) = drop i (a st)"
      by (simp only: append_take_drop_id)
    then show ?thesis using l False rec by simp
  qed
qed

text \<open>
  C2. In every state reached from a fresh store by \<open>Create\<close> calls (and \<open>Reset\<close>), with a
  page size of at least 1 and no filters, the reader's loop (\<open>List\<close> with the empty cursor,
  then with the identifier of the last article of each non-empty page, until a page is
  empty) terminates within \<open>length (a st) + 1\<close> calls without error, and the pages
  together are exactly the stored sequence: every article once, in the store's order,
  which is sorted by timestamp. Identifiers are never empty, as the library's are not.
\<close>

theorem paginate_all:
  assumes "reachable sha st" and "\<And>ns k. sha ns k \<noteq> []" and "1 \<le> pageSize"
    and "length (a st) < fuel"
  shows "paginate fuel st pageSize [] = Some (Inr (a st)) \<and> distinct (a st) \<and> sorted (dates st)"
proof -
  have inv: "store_inv sha st" using assms(1) by (rule reachable_inv)
  have c: "findArticleCursorIndex st [] = (0, True)" by (simp add: findArticleCursorIndex_def)
  have "paginate fuel st pageSize [] = Some (Inr (drop 0 (a st)))"
    using assms(4) by (intro paginate_from [OF inv assms(2,3) c]) simp
  then show ?thesis
    using store_invD(1) [OF inv] reachable_sorted [OF assms(1)] by simp
qed

theorem paginate_all_witness:
  "paginate 6 (Creates sampleSHA1 (NewArticleStore listHeap) [0, 1, 2, 3, 4]) 2 [] =
     Some (Inr [0, 1, 2, 3, 4]) \<and>
   distinct (a (Creates sampleSHA1 (NewArticleStore listHeap) [0, 1, 2, 3, 4])) \<and>
   sorted (dates (Creates sampleSHA1 (NewArticleStore listHeap) [0, 1, 2, 3, 4]))"
proof -
  let ?st = "Creates sampleSHA1 (NewArticleStore listHeap) [0, 1, 2, 3, 4]"
  have r: "reachable sampleSHA1 ?st"
    by (intro reachable_Creates reachable.fresh)
  have ne: "sampleSHA1 ns k \<noteq> []" for ns k
    by (simp add: sampleSHA1_def)
  have e: "a ?st = [0, 1, 2, 3, 4]"
    by code_simp
  then have f: "length (a ?st) < 6" by simp
  show ?thesis
    using paginate_all [OF r ne _ f, of 2] e by simp
qed

section \<open>Identifiers of the two stores\<close>




end
